theory Spec2Isabelle
  imports Main
begin

section \<open>Throttler (function throttle of src/index.tsx)\<close>

text \<open>
  \<open>throttle func limit\<close> returns a closure over three variables, \<open>inThrottle\<close>,
  \<open>lastFunc\<close> and \<open>lastRan\<close>, all \<open>undefined\<close> at first. The model keeps them next to
  what the browser holds for the closure: the timers that are pending, each with its id,
  the time it is due at and its callback, and the counter that gives out timer ids. Calls
  of the wrapped \<open>func\<close> are recorded in \<open>executions\<close>, as the time of the call and its
  arguments. Times are milliseconds of a simulated clock, so \<open>Date.now()\<close> inside a
  timer callback is the time the timer is due at.
\<close>

datatype 'a timer_callback = ClearInThrottle | TrailingCall 'a

record 'a timer =
  timerId :: nat
  dueAt :: nat
  callback :: "'a timer_callback"

record 'a throttle_state =
  inThrottle :: bool
  lastFunc :: "nat option"
  lastRan :: "nat option"
  timers :: "'a timer list"
  nextTimerId :: nat
  executions :: "(nat \<times> 'a) list"

definition throttle_init :: "'a throttle_state" where
  "throttle_init =
     \<lparr>inThrottle = False, lastFunc = None, lastRan = None, timers = [], nextTimerId = 1,
      executions = []\<rparr>"

text \<open>\<open>setTimeout\<close> at time \<open>t\<close>: the new timer gets the next id, which is returned
  as the handle.\<close>

definition setTimeout ::
  "'a timer_callback \<Rightarrow> nat \<Rightarrow> nat \<Rightarrow> 'a throttle_state \<Rightarrow> nat \<times> 'a throttle_state" where
  "setTimeout cb delay t s =
     (nextTimerId s,
      s\<lparr>timers := timers s @ [\<lparr>timerId = nextTimerId s, dueAt = t + delay, callback = cb\<rparr>],
        nextTimerId := nextTimerId s + 1\<rparr>)"

definition clearTimeout :: "nat option \<Rightarrow> 'a throttle_state \<Rightarrow> 'a throttle_state" where
  "clearTimeout handle s =
     (case handle of
        None \<Rightarrow> s
      | Some i \<Rightarrow> s\<lparr>timers := filter (\<lambda>tm. timerId tm \<noteq> i) (timers s)\<rparr>)"

text \<open>
  The delay of the trailing timer is \<open>limit - (Date.now() - lastRan)\<close>. A negative delay
  is treated by \<open>setTimeout\<close> as zero, which is what \<open>nat\<close> does to a negative integer;
  with \<open>lastRan\<close> still \<open>undefined\<close> the delay is \<open>NaN\<close>, treated as zero as well.
\<close>

definition trailingDelay :: "nat \<Rightarrow> nat \<Rightarrow> nat option \<Rightarrow> nat" where
  "trailingDelay limit t ranAt =
     (case ranAt of None \<Rightarrow> 0 | Some r \<Rightarrow> nat (int limit - (int t - int r)))"

text \<open>The returned function, called at time \<open>t\<close> with arguments \<open>args\<close>.\<close>

definition throttled :: "nat \<Rightarrow> nat \<Rightarrow> 'a \<Rightarrow> 'a throttle_state \<Rightarrow> 'a throttle_state" where
  "throttled limit t args s =
     (if \<not> inThrottle s then
        (let s1 = s\<lparr>executions := executions s @ [(t, args)]\<rparr>;
             s2 = s1\<lparr>lastRan := Some t\<rparr>;
             s3 = s2\<lparr>inThrottle := True\<rparr>;
             (handle, s4) = setTimeout ClearInThrottle limit t s3
         in s4\<lparr>lastFunc := Some handle\<rparr>)
      else
        (let s1 = clearTimeout (lastFunc s) s;
             (handle, s2) = setTimeout (TrailingCall args) (trailingDelay limit t (lastRan s1)) t s1
         in s2\<lparr>lastFunc := Some handle\<rparr>))"

text \<open>A timer callback running at time \<open>t\<close>. The comparison with \<open>lastRan\<close> undefined is
  a comparison with \<open>NaN\<close> and fails.\<close>

definition runCallback :: "nat \<Rightarrow> nat \<Rightarrow> 'a timer_callback \<Rightarrow> 'a throttle_state \<Rightarrow> 'a throttle_state" where
  "runCallback limit t cb s =
     (case cb of
        ClearInThrottle \<Rightarrow> s\<lparr>inThrottle := False\<rparr>
      | TrailingCall args \<Rightarrow>
          (case lastRan s of
             None \<Rightarrow> s
           | Some r \<Rightarrow>
               if int limit \<le> int t - int r
               then s\<lparr>executions := executions s @ [(t, args)], lastRan := Some t\<rparr>
               else s))"

text \<open>
  The event loop up to time \<open>t\<close>: the pending timers due by then leave the queue and run,
  earliest first and in order of creation among equals. No callback of this closure arms a
  timer, so the timers that run are the ones pending at the start.
\<close>

definition runDueTimers :: "nat \<Rightarrow> nat \<Rightarrow> 'a throttle_state \<Rightarrow> 'a throttle_state" where
  "runDueTimers limit t s =
     foldl (\<lambda>s tm. runCallback limit (dueAt tm) (callback tm) s)
           (s\<lparr>timers := filter (\<lambda>tm. \<not> dueAt tm \<le> t) (timers s)\<rparr>)
           (sort_key dueAt (filter (\<lambda>tm. dueAt tm \<le> t) (timers s)))"

text \<open>A sequence of calls, each given as its time and its arguments, in order of time. A
  timer due at the very time of a call runs before the call.\<close>

fun run_calls :: "nat \<Rightarrow> (nat \<times> 'a) list \<Rightarrow> 'a throttle_state \<Rightarrow> 'a throttle_state" where
  "run_calls limit [] s = s"
| "run_calls limit ((t, args) # calls) s =
     run_calls limit calls (throttled limit t args (runDueTimers limit t s))"

text \<open>After the last call the timers still pending run when they are due.\<close>

definition runRemainingTimers :: "nat \<Rightarrow> 'a throttle_state \<Rightarrow> 'a throttle_state" where
  "runRemainingTimers limit s =
     foldl (\<lambda>s tm. runCallback limit (dueAt tm) (callback tm) s)
           (s\<lparr>timers := []\<rparr>)
           (sort_key dueAt (timers s))"

definition throttle_trace :: "nat \<Rightarrow> (nat \<times> 'a) list \<Rightarrow> (nat \<times> 'a) list" where
  "throttle_trace limit calls =
     executions (runRemainingTimers limit (run_calls limit calls throttle_init))"

text \<open>Consecutive executions are at least \<open>limit\<close> apart, so no span shorter than
  \<open>limit\<close> holds two of them.\<close>

fun spaced :: "nat \<Rightarrow> (nat \<times> 'a) list \<Rightarrow> bool" where
  "spaced limit [] = True"
| "spaced limit [x] = True"
| "spaced limit (x # y # rest) = (fst x + limit \<le> fst y \<and> spaced limit (y # rest))"

text \<open>
  What holds of the closure at time \<open>clock\<close> between events: the executions are spaced and
  \<open>lastRan\<close> is the time of the last one; at most one timer is pending, it is the one
  \<open>lastFunc\<close> names, and \<open>inThrottle\<close> is set while it is pending; the timer that clears
  \<open>inThrottle\<close> is due \<open>limit\<close> after the last execution; and with \<open>inThrottle\<close>
  clear the last execution is at least \<open>limit\<close> old.
\<close>

definition throttle_ok :: "nat \<Rightarrow> nat \<Rightarrow> 'a throttle_state \<Rightarrow> bool" where
  "throttle_ok limit clock s =
     (spaced limit (executions s)
      \<and> lastRan s = (if executions s = [] then None else Some (fst (last (executions s))))
      \<and> (case timers s of
            [] \<Rightarrow> inThrottle s \<or> (case lastRan s of None \<Rightarrow> True | Some r \<Rightarrow> r + limit \<le> clock)
          | [tm] \<Rightarrow> inThrottle s \<and> lastFunc s = Some (timerId tm)
                    \<and> (case callback tm of
                          ClearInThrottle \<Rightarrow> lastRan s = Some (dueAt tm - limit) \<and> limit \<le> dueAt tm
                        | TrailingCall args \<Rightarrow> True)
          | tm # tm' # tms \<Rightarrow> False))"

section \<open>Mobile navigation drawer (component Header of src/index.tsx)\<close>

text \<open>
  The component keeps two React state variables, \<open>isMobileMenuReallyOpen\<close> and
  \<open>mobileMenuDisplayState\<close>, and one effect whose dependency is the display state.
  The effect arms a \<open>window.setTimeout\<close> when the display state is \<open>opening\<close>
  (600 ms, its callback sets \<open>open\<close>) or \<open>closing\<close> (500 ms, its callback sets
  \<open>hidden\<close>); its cleanup clears that timer whenever the display state changes.

  The model adds the two things the browser supplies: a clock \<open>now\<close> in milliseconds and
  the pending timer, kept as the time it is due at together with the value its callback
  writes. One step of the model is one handled event followed by the render and the effect
  run it causes.
\<close>

datatype MobileMenuDisplayState = Hidden | Opening | Open | Closing

record header_state =
  isMobileMenuReallyOpen :: bool
  mobileMenuDisplayState :: MobileMenuDisplayState
  pendingTimer :: "(nat \<times> MobileMenuDisplayState) option"
  now :: nat

definition header_init :: header_state where
  "header_init =
     \<lparr>isMobileMenuReallyOpen = False, mobileMenuDisplayState = Hidden,
      pendingTimer = None, now = 0\<rparr>"

text \<open>The two setters of \<open>openMobileMenu\<close>; the ripple origin written to the style of the
  nav element is not part of the state.\<close>

definition openMobileMenu :: "header_state \<Rightarrow> header_state" where
  "openMobileMenu s = s\<lparr>mobileMenuDisplayState := Opening, isMobileMenuReallyOpen := True\<rparr>"

definition closeMobileMenu :: "header_state \<Rightarrow> header_state" where
  "closeMobileMenu s = s\<lparr>mobileMenuDisplayState := Closing, isMobileMenuReallyOpen := False\<rparr>"

definition handleToggleMobileMenu :: "header_state \<Rightarrow> header_state" where
  "handleToggleMobileMenu s =
     (if isMobileMenuReallyOpen s then
        (if mobileMenuDisplayState s = Open \<or> mobileMenuDisplayState s = Opening
         then closeMobileMenu s else s)
      else
        (if mobileMenuDisplayState s = Hidden \<or> mobileMenuDisplayState s = Closing
         then openMobileMenu s else s))"

text \<open>\<open>navLinkHandler\<close> first calls \<open>onScrollToSection\<close>, which scrolls the page and
  leaves the state of the header alone.\<close>

definition navLinkHandler :: "string \<Rightarrow> header_state \<Rightarrow> header_state" where
  "navLinkHandler sectionId s = (if isMobileMenuReallyOpen s then closeMobileMenu s else s)"

text \<open>The body of the display-state effect: which timer it arms at time \<open>t\<close>.\<close>

fun displayStateEffect :: "nat \<Rightarrow> MobileMenuDisplayState \<Rightarrow> (nat \<times> MobileMenuDisplayState) option" where
  "displayStateEffect t Opening = Some (t + 600, Open)"
| "displayStateEffect t Closing = Some (t + 500, Hidden)"
| "displayStateEffect t Hidden = None"
| "displayStateEffect t Open = None"

text \<open>After a handler has run on state \<open>old\<close> and produced \<open>new\<close>, React renders again.
  The effect depends on the display state only: when that is unchanged nothing happens,
  otherwise the cleanup clears the old timer and the effect body runs.\<close>

definition commit :: "header_state \<Rightarrow> header_state \<Rightarrow> header_state" where
  "commit old new =
     (if mobileMenuDisplayState new = mobileMenuDisplayState old then new
      else new\<lparr>pendingTimer := displayStateEffect (now new) (mobileMenuDisplayState new)\<rparr>)"

text \<open>The timer callback at its due time: the timer is spent, the callback sets the display
  state, and the render that follows runs the effect.\<close>

definition fireTimer :: "nat \<Rightarrow> MobileMenuDisplayState \<Rightarrow> header_state \<Rightarrow> header_state" where
  "fireTimer due target s =
     commit (s\<lparr>pendingTimer := None, now := due\<rparr>)
            (s\<lparr>pendingTimer := None, now := due, mobileMenuDisplayState := target\<rparr>)"

text \<open>Letting \<open>d\<close> milliseconds pass with no user event. A timer due within that span fires
  at its due time. The callbacks set \<open>open\<close> or \<open>hidden\<close>, for which the effect arms no
  timer, so at most one timer fires in any span.\<close>

definition elapse :: "nat \<Rightarrow> header_state \<Rightarrow> header_state" where
  "elapse d s =
     (case pendingTimer s of
        None \<Rightarrow> s\<lparr>now := now s + d\<rparr>
      | Some (due, target) \<Rightarrow>
          if due \<le> now s + d then (fireTimer due target s)\<lparr>now := now s + d\<rparr>
          else s\<lparr>now := now s + d\<rparr>)"

datatype nav_event = Toggle | NavLink string | Elapse nat

fun nav_step :: "nav_event \<Rightarrow> header_state \<Rightarrow> header_state" where
  "nav_step Toggle s = commit s (handleToggleMobileMenu s)"
| "nav_step (NavLink sectionId) s = commit s (navLinkHandler sectionId s)"
| "nav_step (Elapse d) s = elapse d s"

definition nav_run :: "nav_event list \<Rightarrow> header_state" where
  "nav_run evs = foldl (\<lambda>s e. nav_step e s) header_init evs"

text \<open>The successor on the cycle hidden, opening, open, closing.\<close>

fun cycle_next :: "MobileMenuDisplayState \<Rightarrow> MobileMenuDisplayState" where
  "cycle_next Hidden = Opening"
| "cycle_next Opening = Open"
| "cycle_next Open = Closing"
| "cycle_next Closing = Hidden"

text \<open>A step stays on the cycle when it keeps the display state or moves it to its
  successor.\<close>

definition along_cycle :: "MobileMenuDisplayState \<Rightarrow> MobileMenuDisplayState \<Rightarrow> bool" where
  "along_cycle a b = (b = a \<or> b = cycle_next a)"

text \<open>The moves the handlers and the timers make: the cycle, and the two reversals
  between \<open>opening\<close> and \<open>closing\<close>.\<close>

definition drawer_move :: "MobileMenuDisplayState \<Rightarrow> MobileMenuDisplayState \<Rightarrow> bool" where
  "drawer_move a b =
     (along_cycle a b \<or> (a = Opening \<and> b = Closing) \<or> (a = Closing \<and> b = Opening))"

text \<open>The moves a timer expiry may make: none, opening to open, closing to hidden.\<close>

definition timer_move :: "MobileMenuDisplayState \<Rightarrow> MobileMenuDisplayState \<Rightarrow> bool" where
  "timer_move a b = (b = a \<or> (a = Opening \<and> b = Open) \<or> (a = Closing \<and> b = Hidden))"

text \<open>What the expiry of the pending timer does to each display state of a reachable
  drawer.\<close>

fun timer_target :: "MobileMenuDisplayState \<Rightarrow> MobileMenuDisplayState" where
  "timer_target Opening = Open"
| "timer_target Closing = Hidden"
| "timer_target Hidden = Hidden"
| "timer_target Open = Open"

text \<open>What the selection of a navigation link does to each display state of a reachable
  drawer.\<close>

fun link_target :: "MobileMenuDisplayState \<Rightarrow> MobileMenuDisplayState" where
  "link_target Hidden = Hidden"
| "link_target Opening = Closing"
| "link_target Open = Closing"
| "link_target Closing = Closing"

text \<open>What a toggle does to each display state of a reachable drawer.\<close>

fun toggle_target :: "MobileMenuDisplayState \<Rightarrow> MobileMenuDisplayState" where
  "toggle_target Hidden = Opening"
| "toggle_target Closing = Opening"
| "toggle_target Opening = Closing"
| "toggle_target Open = Closing"

text \<open>The invariant tying the flag and the pending timer to the display state.\<close>

fun timer_matches :: "header_state \<Rightarrow> bool" where
  "timer_matches s =
     (case mobileMenuDisplayState s of
        Opening \<Rightarrow> (case pendingTimer s of None \<Rightarrow> False
                      | Some (due, target) \<Rightarrow> target = Open \<and> now s < due \<and> due \<le> now s + 600)
      | Closing \<Rightarrow> (case pendingTimer s of None \<Rightarrow> False
                      | Some (due, target) \<Rightarrow> target = Hidden \<and> now s < due \<and> due \<le> now s + 500)
      | Hidden \<Rightarrow> pendingTimer s = None
      | Open \<Rightarrow> pendingTimer s = None)"

definition flag_in_sync :: "header_state \<Rightarrow> bool" where
  "flag_in_sync s =
     (isMobileMenuReallyOpen s =
        (mobileMenuDisplayState s = Opening \<or> mobileMenuDisplayState s = Open))"

definition nav_inv :: "header_state \<Rightarrow> bool" where
  "nav_inv s = (flag_in_sync s \<and> timer_matches s)"

section \<open>Viewport visibility tracker (hook useIntersectionObserver)\<close>

text \<open>
  A DOM element is identified by a number and carries its \<open>id\<close> attribute; an
  \<open>IntersectionObserverEntry\<close> carries the two fields the code reads.
\<close>

record Element =
  elementRef :: nat
  elementId :: string

record IntersectionObserverEntry =
  entryIsIntersecting :: bool
  target :: Element

text \<open>Of the options only \<open>triggerOnce\<close> is read by the callback; an option left out is
  \<open>undefined\<close> in the source and behaves as \<open>False\<close>.\<close>

record IntersectionObserverOptions =
  triggerOnce :: bool

text \<open>
  The hook keeps the state variables \<open>element\<close> and \<open>isIntersecting\<close> and the ref
  \<open>observer\<close>. Of the observer the model keeps what matters: the element it currently
  observes, if any (\<open>disconnect\<close> and \<open>unobserve\<close> empty it).
\<close>

record tracker_state =
  element :: "Element option"
  isIntersecting :: bool
  observing :: "Element option"

definition tracker_init :: tracker_state where
  "tracker_init = \<lparr>element = None, isIntersecting = False, observing = None\<rparr>"

definition unobserve :: "Element \<Rightarrow> tracker_state \<Rightarrow> tracker_state" where
  "unobserve el s = (if observing s = Some el then s\<lparr>observing := None\<rparr> else s)"

text \<open>The observer callback. It destructures the first entry of the batch it is given; the
  platform gives it at least one entry, kept apart here as \<open>entry\<close>.\<close>

definition observerCallback ::
  "IntersectionObserverOptions \<Rightarrow> IntersectionObserverEntry \<Rightarrow> IntersectionObserverEntry list
     \<Rightarrow> tracker_state \<Rightarrow> tracker_state" where
  "observerCallback options entry rest s =
     (if entryIsIntersecting entry then
        (let s' = s\<lparr>isIntersecting := True\<rparr>
         in if triggerOnce options then unobserve (target entry) s' else s')
      else if \<not> triggerOnce options then s\<lparr>isIntersecting := False\<rparr>
      else s)"

text \<open>
  The events of the hook: the ref callback \<open>setElement\<close> (with the effect it causes when
  the element changes: disconnect, then observe the new element if there is one), and the
  platform invoking the observer callback, which happens only while something is observed.
\<close>

datatype tracker_event =
  SetElement "Element option"
| Deliver IntersectionObserverEntry "IntersectionObserverEntry list"

fun tracker_step :: "IntersectionObserverOptions \<Rightarrow> tracker_event \<Rightarrow> tracker_state \<Rightarrow> tracker_state" where
  "tracker_step options (SetElement el) s =
     (if el = element s then s else s\<lparr>element := el, observing := el\<rparr>)"
| "tracker_step options (Deliver entry rest) s =
     (if observing s = None then s else observerCallback options entry rest s)"

definition tracker_run ::
  "IntersectionObserverOptions \<Rightarrow> tracker_event list \<Rightarrow> tracker_state \<Rightarrow> tracker_state" where
  "tracker_run options evs s = foldl (\<lambda>s e. tracker_step options e s) s evs"

section \<open>Active-section tracker (component LandingPage)\<close>

text \<open>The state variable \<open>activeSectionId\<close> has type \<open>string | null\<close> and starts as
  \<open>'hero'\<close>. The observer callback walks the batch in order and sets the identifier for
  every intersecting entry, so the last such entry of the batch decides.\<close>

definition activeSectionInit :: "string option" where
  "activeSectionInit = Some ''hero''"

definition activeSectionCallback :: "IntersectionObserverEntry list \<Rightarrow> string option \<Rightarrow> string option" where
  "activeSectionCallback entries active =
     foldl (\<lambda>a entry. if entryIsIntersecting entry then Some (elementId (target entry)) else a)
           active entries"

definition activeSection_run :: "IntersectionObserverEntry list list \<Rightarrow> string option" where
  "activeSection_run batches = foldl (\<lambda>a entries. activeSectionCallback entries a) activeSectionInit batches"

section \<open>Theme controller (component App)\<close>

text \<open>
  The state variable \<open>theme\<close> is a string at run time (the value read from the store is
  cast, not checked). The browser supplies \<open>localStorage\<close>, a map from keys to strings,
  the \<open>data-theme\<close> attribute of the document, and the media query, which is absent
  (\<open>None\<close>) when \<open>window.matchMedia\<close> does not exist.
\<close>

record app_state =
  theme :: string
  localStorage :: "string \<rightharpoonup> string"
  dataTheme :: "string option"

text \<open>The second effect, run after every render in which \<open>theme\<close> changed and after the
  first render.\<close>

definition persistTheme :: "app_state \<Rightarrow> app_state" where
  "persistTheme s =
     s\<lparr>dataTheme := Some (theme s),
       localStorage := (localStorage s)(''portfolio-theme'' \<mapsto> theme s)\<rparr>"

text \<open>\<open>setTheme\<close> followed by the render it causes: setting the value the state already
  has causes no render and no effect.\<close>

definition setTheme :: "string \<Rightarrow> app_state \<Rightarrow> app_state" where
  "setTheme t s = (if t = theme s then s else persistTheme (s\<lparr>theme := t\<rparr>))"

text \<open>The value the first effect passes to \<open>setTheme\<close>: the stored string when it is
  truthy (present and not empty), otherwise the answer of the media query.\<close>

definition startupTheme :: "(string \<rightharpoonup> string) \<Rightarrow> bool option \<Rightarrow> string" where
  "startupTheme store prefersDark =
     (case store ''portfolio-theme'' of
        Some storedTheme \<Rightarrow>
          if storedTheme \<noteq> [] then storedTheme
          else if prefersDark = Some True then ''dark'' else ''light''
      | None \<Rightarrow> if prefersDark = Some True then ''dark'' else ''light'')"

text \<open>
  The root renders \<open>App\<close> inside \<open>React.StrictMode\<close>. In a production build that
  wrapper does nothing. In a development build it runs the effects of a newly mounted
  component a second time, straight after the first run and before any queued state
  update is rendered.
\<close>

datatype build_mode = Production | Development

text \<open>The next render applies the queued \<open>setTheme\<close> calls in the order they were made,
  so the state takes the value of the last one.\<close>

definition applyQueued :: "string list \<Rightarrow> app_state \<Rightarrow> app_state" where
  "applyQueued queued s = setTheme (foldl (\<lambda>current value. value) (theme s) queued) s"

text \<open>Mounting: the first render has \<open>theme = 'light'\<close>; then both effects run in source
  order, the first reading the store and queueing its \<open>setTheme\<close> before the second
  writes the store; in a development build both run once more, on the same state and on
  the store as the first run left it; then the queue is applied.\<close>

definition app_mount :: "build_mode \<Rightarrow> (string \<rightharpoonup> string) \<Rightarrow> bool option \<Rightarrow> app_state" where
  "app_mount mode store prefersDark =
     (let s0 = \<lparr>theme = ''light'', localStorage = store, dataTheme = None\<rparr>;
          queued1 = startupTheme (localStorage s0) prefersDark;
          s1 = persistTheme s0
      in case mode of
           Production \<Rightarrow> applyQueued [queued1] s1
         | Development \<Rightarrow>
             (let queued2 = startupTheme (localStorage s1) prefersDark;
                  s2 = persistTheme s1
              in applyQueued [queued1, queued2] s2))"

definition toggleTheme :: "app_state \<Rightarrow> app_state" where
  "toggleTheme s = setTheme (if theme s = ''light'' then ''dark'' else ''light'') s"

section \<open>Typewriter animator (typing effect of component HeroSection)\<close>

text \<open>
  A typed character carries the character and its React key; the key is built from the
  index and \<open>Date.now()\<close>, kept here as that pair.
\<close>

record TypedCharacter =
  char :: char
  key :: "nat \<times> nat"

record hero_state =
  typedNameChars :: "TypedCharacter list"
  currentIndex :: nat
  isTypingForward :: bool

definition hero_init :: hero_state where
  "hero_init = \<lparr>typedNameChars = [], currentIndex = 0, isTypingForward = True\<rparr>"

definition typingSpeed :: nat where
  "typingSpeed = 120"

definition backspaceSpeed :: nat where
  "backspaceSpeed = 70"

definition pauseAtEndDuration :: nat where
  "pauseAtEndDuration = 1500"

text \<open>
  The effect, run at time \<open>t\<close> in state \<open>s\<close>, arms exactly one timer. The result is the
  delay of that timer and the state its callback leaves; the callback runs at \<open>t + delay\<close>,
  which is the \<open>Date.now()\<close> of the key. The target string is \<open>"Shivam Kumar"\<close> in the
  source and a parameter here. \<open>currentIndex\<close> is decremented only under the guard
  \<open>currentIndex > 0\<close>, so a natural number holds it.
\<close>

definition typingEffect :: "string \<Rightarrow> nat \<Rightarrow> hero_state \<Rightarrow> nat \<times> hero_state" where
  "typingEffect fullName t s =
     (if isTypingForward s then
        (if currentIndex s < length fullName then
           (typingSpeed,
            s\<lparr>typedNameChars := typedNameChars s @
                  [\<lparr>char = fullName ! currentIndex s, key = (currentIndex s, t + typingSpeed)\<rparr>],
              currentIndex := currentIndex s + 1\<rparr>)
         else (pauseAtEndDuration, s\<lparr>isTypingForward := False\<rparr>))
      else
        (if currentIndex s > 0 then
           (backspaceSpeed,
            s\<lparr>typedNameChars := butlast (typedNameChars s), currentIndex := currentIndex s - 1\<rparr>)
         else (pauseAtEndDuration, s\<lparr>isTypingForward := True\<rparr>)))"

text \<open>One tick: the pending timer expires; the render that follows runs the effect again
  (every callback changes \<open>currentIndex\<close> or \<open>isTypingForward\<close>, the dependencies).\<close>

definition typing_tick :: "string \<Rightarrow> nat \<times> hero_state \<Rightarrow> nat \<times> hero_state" where
  "typing_tick fullName ts =
     (fst ts + fst (typingEffect fullName (fst ts) (snd ts)),
      snd (typingEffect fullName (fst ts) (snd ts)))"

definition typing_after :: "string \<Rightarrow> nat \<Rightarrow> nat \<times> hero_state \<Rightarrow> nat \<times> hero_state" where
  "typing_after fullName n ts = (typing_tick fullName ^^ n) ts"

definition displayed :: "hero_state \<Rightarrow> string" where
  "displayed s = map char (typedNameChars s)"

text \<open>
  The cycle as the specification describes it, for a target of length \<open>N\<close>, by the
  position \<open>r\<close> in a cycle of \<open>2 * N + 2\<close> ticks: the length shown, the delay until the
  next tick, and the time since the cycle began.
\<close>

definition cycle_length_at :: "nat \<Rightarrow> nat \<Rightarrow> nat" where
  "cycle_length_at N r = (if r \<le> N then r else 2 * N + 1 - r)"

definition cycle_delay_at :: "nat \<Rightarrow> nat \<Rightarrow> nat" where
  "cycle_delay_at N r =
     (if r < N then typingSpeed
      else if r = N then pauseAtEndDuration
      else if r \<le> 2 * N then backspaceSpeed
      else pauseAtEndDuration)"

definition cycle_time_at :: "nat \<Rightarrow> nat \<Rightarrow> nat" where
  "cycle_time_at N r =
     (if r \<le> N then r * typingSpeed
      else N * typingSpeed + pauseAtEndDuration + (r - (N + 1)) * backspaceSpeed)"

definition cycle_duration :: "nat \<Rightarrow> nat" where
  "cycle_duration N = N * typingSpeed + pauseAtEndDuration + N * backspaceSpeed + pauseAtEndDuration"

text \<open>The text shown is always the prefix of the target that \<open>currentIndex\<close> counts.\<close>

definition prefix_ok :: "string \<Rightarrow> hero_state \<Rightarrow> bool" where
  "prefix_ok fullName s =
     (displayed s = take (currentIndex s) fullName \<and> currentIndex s \<le> length fullName)"

text \<open>Where the animation stands after \<open>m\<close> ticks, started at time \<open>t0\<close>.\<close>

definition at_position :: "string \<Rightarrow> nat \<Rightarrow> nat \<Rightarrow> nat \<times> hero_state \<Rightarrow> bool" where
  "at_position fullName t0 m ts =
     (let N = length fullName; r = m mod (2 * N + 2) in
        currentIndex (snd ts) = cycle_length_at N r
        \<and> isTypingForward (snd ts) = (r \<le> N)
        \<and> fst ts = t0 + (m div (2 * N + 2)) * cycle_duration N + cycle_time_at N r)"

section \<open>Properties of the throttler\<close>

lemmas throttle_unfold =
  throttle_trace_def runRemainingTimers_def runDueTimers_def throttled_def runCallback_def
  setTimeout_def clearTimeout_def trailingDelay_def throttle_init_def Let_def

lemma spaced_snoc:
  "spaced limit (xs @ [x]) = (spaced limit xs \<and> (xs = [] \<or> fst (last xs) + limit \<le> fst x))"
  by (induction limit xs rule: spaced.induct) auto

lemma throttle_ok_later:
  assumes "throttle_ok limit clock s" and "clock \<le> clock'"
  shows "throttle_ok limit clock' s"
  using assms
  by (auto simp: throttle_ok_def split: list.splits option.splits)

lemma throttle_ok_init: "throttle_ok limit 0 throttle_init"
  by (simp add: throttle_ok_def throttle_init_def)

lemma runCallback_ok:
  assumes "throttle_ok limit clock s" and "timers s = [tm]" and "dueAt tm \<le> t"
  shows "throttle_ok limit t (runCallback limit (dueAt tm) (callback tm) (s\<lparr>timers := []\<rparr>))"
  using assms
  by (cases "callback tm")
     (auto simp: throttle_ok_def runCallback_def spaced_snoc split: option.splits if_splits)

lemma runDueTimers_ok:
  assumes "throttle_ok limit clock s" and "clock \<le> t"
  shows "throttle_ok limit t (runDueTimers limit t s)"
proof (cases "timers s")
  case Nil
  then have "runDueTimers limit t s = s"
    by (simp add: runDueTimers_def)
  then show ?thesis
    using throttle_ok_later [OF assms] by simp
next
  case (Cons tm tms)
  then have one: "timers s = [tm]"
    using assms(1) by (cases tms) (simp_all add: throttle_ok_def)
  show ?thesis
  proof (cases "dueAt tm \<le> t")
    case True
    then have "runDueTimers limit t s = runCallback limit (dueAt tm) (callback tm) (s\<lparr>timers := []\<rparr>)"
      by (simp add: runDueTimers_def one)
    then show ?thesis
      using runCallback_ok [OF assms(1) one True] by simp
  next
    case False
    then have "runDueTimers limit t s = s"
      by (simp add: runDueTimers_def one)
    then show ?thesis
      using throttle_ok_later [OF assms] by simp
  qed
qed

lemma runRemainingTimers_spaced:
  assumes "throttle_ok limit clock s"
  shows "spaced limit (executions (runRemainingTimers limit s))"
proof (cases "timers s")
  case Nil
  then show ?thesis
    using assms by (simp add: runRemainingTimers_def throttle_ok_def)
next
  case (Cons tm tms)
  then have one: "timers s = [tm]"
    using assms by (cases tms) (simp_all add: throttle_ok_def)
  have "throttle_ok limit (dueAt tm) (runCallback limit (dueAt tm) (callback tm) (s\<lparr>timers := []\<rparr>))"
    by (rule runCallback_ok [OF assms one]) simp
  then show ?thesis
    by (simp add: runRemainingTimers_def one throttle_ok_def)
qed

lemma throttled_ok:
  assumes "throttle_ok limit t s"
  shows "throttle_ok limit t (throttled limit t args s)"
proof (cases "timers s")
  case Nil
  then show ?thesis
    using assms
    by (auto simp: throttle_ok_def throttled_def setTimeout_def clearTimeout_def spaced_snoc
          Let_def split: option.splits if_splits)
next
  case (Cons tm tms)
  then have one: "timers s = [tm]"
    using assms by (cases tms) (simp_all add: throttle_ok_def)
  then show ?thesis
    using assms
    by (auto simp: throttle_ok_def throttled_def setTimeout_def clearTimeout_def Let_def
          split: option.splits)
qed

lemma run_calls_ok:
  assumes "throttle_ok limit clock s" and "sorted (clock # map fst calls)"
  shows "\<exists>clock'. throttle_ok limit clock' (run_calls limit calls s)"
  using assms
proof (induction calls arbitrary: clock s)
  case Nil
  then show ?case by auto
next
  case (Cons c calls)
  obtain t args where c: "c = (t, args)" by (cases c)
  have le: "clock \<le> t" and later: "sorted (t # map fst calls)"
    using Cons.prems(2) by (simp_all add: c)
  have "throttle_ok limit t (runDueTimers limit t s)"
    by (rule runDueTimers_ok [OF Cons.prems(1) le])
  then have "throttle_ok limit t (throttled limit t args (runDueTimers limit t s))"
    by (rule throttled_ok)
  from Cons.IH [OF this later] show ?case
    by (simp add: c)
qed

text \<open>For calls in order of time, whatever they are, executions are at least \<open>limit\<close>
  apart.\<close>

lemma throttle_spacing:
  assumes "sorted (map fst calls)"
  shows "spaced limit (throttle_trace limit calls)"
proof -
  have "sorted (0 # map fst calls)"
    using assms by simp
  from run_calls_ok [OF throttle_ok_init this]
  obtain clock' where "throttle_ok limit clock' (run_calls limit calls throttle_init)"
    by blast
  then show ?thesis
    unfolding throttle_trace_def by (rule runRemainingTimers_spaced)
qed

text \<open>
  Claim C1, as the code has it. With an interval of 50 ms and calls at 0, 10, 20 and 60 ms
  the wrapped callback runs three times: at 0 with the arguments of the first call, at 50
  with the arguments of the call at 20 (the latest of the two calls that arrived during the
  first interval), and at 100 with the arguments of the call at 60, which arrived 10 ms
  after the second execution and was held back in turn. Consecutive executions are 50 ms
  apart, so no window of 50 ms holds more than one.
\<close>

theorem throttle_sample_trace:
  "throttle_trace 50 [(0, a), (10, b), (20, c), (60, d)] = [(0, a), (50, c), (100, d)]
   \<and> spaced 50 (throttle_trace 50 [(0, a), (10, b), (20, c), (60, d)])"
  by (simp add: throttle_unfold)

text \<open>
  Claim C1 as the specification words it fails on the number of executions: the sample
  calls, carrying their own times as arguments, lead to three executions, not two.
\<close>

theorem throttle_two_executions_counterexample:
  "throttle_trace 50 [(0, 0 :: nat), (10, 10), (20, 20), (60, 60)] = [(0, 0), (50, 20), (100, 60)]
   \<and> length (throttle_trace 50 [(0, 0 :: nat), (10, 10), (20, 20), (60, 60)]) \<noteq> 2"
  by (simp add: throttle_unfold)

section \<open>Properties of the navigation drawer\<close>

lemma nav_run_Nil: "nav_run [] = header_init"
  by (simp add: nav_run_def)

lemma nav_run_snoc: "nav_run (evs @ [e]) = nav_step e (nav_run evs)"
  by (simp add: nav_run_def)

lemma nav_inv_init: "nav_inv header_init"
  by (simp add: nav_inv_def flag_in_sync_def header_init_def)

lemma nav_inv_step: "nav_inv s \<Longrightarrow> nav_inv (nav_step e s)"
  by (cases e; cases "mobileMenuDisplayState s")
     (auto simp: nav_inv_def flag_in_sync_def commit_def handleToggleMobileMenu_def
        navLinkHandler_def openMobileMenu_def closeMobileMenu_def elapse_def fireTimer_def
        split: option.splits MobileMenuDisplayState.splits if_splits)

lemma nav_inv_run: "nav_inv (nav_run evs)"
  by (induction evs rule: rev_induct) (simp_all add: nav_run_Nil nav_inv_init nav_run_snoc nav_inv_step)

lemma nav_run_append: "nav_run (evs @ evs') = foldl (\<lambda>s e. nav_step e s) (nav_run evs) evs'"
  by (simp add: nav_run_def)

lemma elapse_elapse:
  assumes "nav_inv s"
  shows "elapse b (elapse a s) = elapse (a + b) s"
  using assms
  by (cases "mobileMenuDisplayState s")
     (auto simp: nav_inv_def elapse_def fireTimer_def commit_def add.assoc
        split: option.splits if_splits)

lemma elapse_zero:
  assumes "nav_inv s"
  shows "elapse 0 s = s"
  using assms
  by (cases "mobileMenuDisplayState s")
     (auto simp: nav_inv_def elapse_def split: option.splits)

lemma elapse_chunks:
  assumes "nav_inv s"
  shows "foldl (\<lambda>s e. nav_step e s) s (map Elapse ds) = elapse (sum_list ds) s"
  using assms
proof (induction ds arbitrary: s)
  case Nil
  then show ?case by (simp add: elapse_zero)
next
  case (Cons d ds)
  have "nav_inv (elapse d s)"
    using nav_inv_step [OF Cons.prems, of "Elapse d"] by simp
  then show ?case
    using Cons.IH [of "elapse d s"] by (simp add: elapse_elapse [OF Cons.prems])
qed

lemma step_moves:
  assumes "nav_inv s"
  shows "drawer_move (mobileMenuDisplayState s) (mobileMenuDisplayState (nav_step e s))"
  using assms
  by (cases e; cases "mobileMenuDisplayState s")
     (auto simp: nav_inv_def flag_in_sync_def drawer_move_def along_cycle_def commit_def
        handleToggleMobileMenu_def navLinkHandler_def openMobileMenu_def closeMobileMenu_def
        elapse_def fireTimer_def split: option.splits if_splits)

lemma elapse_along_cycle:
  assumes "nav_inv s"
  shows "along_cycle (mobileMenuDisplayState s) (mobileMenuDisplayState (elapse d s))"
  using assms
  by (cases "mobileMenuDisplayState s")
     (auto simp: nav_inv_def along_cycle_def commit_def elapse_def fireTimer_def
        split: option.splits if_splits)

lemma toggle_on_inv:
  assumes "nav_inv s"
  shows "mobileMenuDisplayState (nav_step Toggle s) = toggle_target (mobileMenuDisplayState s)"
  using assms
  by (cases "mobileMenuDisplayState s")
     (auto simp: nav_inv_def flag_in_sync_def commit_def handleToggleMobileMenu_def
        openMobileMenu_def closeMobileMenu_def)

lemma link_on_inv:
  assumes "nav_inv s"
  shows "mobileMenuDisplayState (nav_step (NavLink sectionId) s)
           = link_target (mobileMenuDisplayState s)"
  using assms
  by (cases "mobileMenuDisplayState s")
     (auto simp: nav_inv_def flag_in_sync_def commit_def navLinkHandler_def closeMobileMenu_def)

lemma elapse_on_inv:
  assumes "nav_inv s"
  shows "mobileMenuDisplayState (elapse d s) =
           (case pendingTimer s of
              None \<Rightarrow> mobileMenuDisplayState s
            | Some (due, goal) \<Rightarrow>
                if due \<le> now s + d then timer_target (mobileMenuDisplayState s)
                else mobileMenuDisplayState s)"
  using assms
  by (cases "mobileMenuDisplayState s")
     (auto simp: nav_inv_def elapse_def fireTimer_def commit_def split: option.splits)

lemma elapse_timer_move:
  assumes "nav_inv s"
  shows "timer_move (mobileMenuDisplayState s) (mobileMenuDisplayState (elapse d s))"
  using assms
  by (cases "mobileMenuDisplayState s")
     (auto simp: nav_inv_def timer_move_def commit_def elapse_def fireTimer_def
        split: option.splits if_splits)

lemma fresh_timer:
  assumes "nav_inv s"
    and "mobileMenuDisplayState (nav_step e s) \<noteq> mobileMenuDisplayState s"
  shows "pendingTimer (nav_step e s) =
           displayStateEffect (now (nav_step e s)) (mobileMenuDisplayState (nav_step e s))"
  using assms
  by (cases e; cases "mobileMenuDisplayState s")
     (auto simp: nav_inv_def flag_in_sync_def commit_def handleToggleMobileMenu_def
        navLinkHandler_def openMobileMenu_def closeMobileMenu_def elapse_def fireTimer_def
        split: option.splits if_splits)

lemma elapse_from_fresh:
  assumes "pendingTimer s = displayStateEffect (now s) (mobileMenuDisplayState s)"
  shows "mobileMenuDisplayState (elapse d s) =
           (case mobileMenuDisplayState s of
              Opening \<Rightarrow> if d < 600 then Opening else Open
            | Closing \<Rightarrow> if d < 500 then Closing else Hidden
            | Hidden \<Rightarrow> Hidden
            | Open \<Rightarrow> Open)"
  using assms
  by (cases "mobileMenuDisplayState s")
     (auto simp: elapse_def fireTimer_def commit_def)

lemmas nav_unfold =
  nav_run_def header_init_def commit_def handleToggleMobileMenu_def navLinkHandler_def
  openMobileMenu_def closeMobileMenu_def elapse_def fireTimer_def

text \<open>
  Claim C2, as the code has it. Between a reachable state of the drawer and the state after
  any one event the display state is unchanged, or moves to its successor on the cycle
  hidden, opening, open, closing, hidden, or is reversed between opening and closing. Event
  by event: a toggle takes hidden to opening, opening to closing, open to closing and
  closing to opening; the selection of a link takes opening to closing and open to closing,
  and changes nothing in hidden and closing; the passing of time changes the state only
  when the pending timer falls due, and then only from opening to open and from closing to
  hidden.
\<close>

theorem drawer_moves:
  "drawer_move (mobileMenuDisplayState (nav_run evs))
               (mobileMenuDisplayState (nav_step e (nav_run evs)))
   \<and> mobileMenuDisplayState (nav_step Toggle (nav_run evs))
       = toggle_target (mobileMenuDisplayState (nav_run evs))
   \<and> mobileMenuDisplayState (nav_step (NavLink sectionId) (nav_run evs))
       = link_target (mobileMenuDisplayState (nav_run evs))
   \<and> mobileMenuDisplayState (nav_step (Elapse d) (nav_run evs))
       = (case pendingTimer (nav_run evs) of
            None \<Rightarrow> mobileMenuDisplayState (nav_run evs)
          | Some (due, goal) \<Rightarrow>
              if due \<le> now (nav_run evs) + d then timer_target (mobileMenuDisplayState (nav_run evs))
              else mobileMenuDisplayState (nav_run evs))
   \<and> timer_move (mobileMenuDisplayState (nav_run evs))
                  (mobileMenuDisplayState (nav_step (Elapse d) (nav_run evs)))"
proof -
  have inv: "nav_inv (nav_run evs)"
    by (rule nav_inv_run)
  show ?thesis
    using step_moves [OF inv, of e] toggle_on_inv [OF inv] link_on_inv [OF inv, of sectionId]
      elapse_on_inv [OF inv, of d] elapse_timer_move [OF inv, of d]
    by simp
qed

text \<open>
  Claim C2 as the specification words it fails: after one toggle the drawer is opening, and
  a second toggle takes it straight to closing, which is not the successor of opening on
  the cycle.
\<close>

theorem drawer_cycle_counterexample:
  "mobileMenuDisplayState (nav_run [Toggle]) = Opening
   \<and> mobileMenuDisplayState (nav_step Toggle (nav_run [Toggle])) = Closing
   \<and> \<not> along_cycle (mobileMenuDisplayState (nav_run [Toggle]))
                       (mobileMenuDisplayState (nav_step Toggle (nav_run [Toggle])))"
  by (simp add: nav_unfold along_cycle_def)

text \<open>
  Claim C3, as the code has it. In a reachable state no toggle is ignored: it takes hidden
  to opening, opening to closing, open to closing, and closing back to opening.
\<close>

theorem toggle_never_ignored:
  "mobileMenuDisplayState (nav_step Toggle (nav_run evs))
     = toggle_target (mobileMenuDisplayState (nav_run evs))
   \<and> mobileMenuDisplayState (nav_step Toggle (nav_run evs))
     \<noteq> mobileMenuDisplayState (nav_run evs)"
  using toggle_on_inv [OF nav_inv_run, of evs]
  by (cases "mobileMenuDisplayState (nav_run evs)") simp_all

text \<open>
  Claim C3 as the specification words it fails: two toggles leave the drawer closing, and a
  toggle arriving then sets it to opening instead of changing nothing.
\<close>

theorem toggle_while_closing_counterexample:
  "mobileMenuDisplayState (nav_run [Toggle, Toggle]) = Closing
   \<and> mobileMenuDisplayState (nav_step Toggle (nav_run [Toggle, Toggle])) = Opening"
  by (simp add: nav_unfold)

text \<open>
  Claim C9. One toggle of the hidden drawer gives opening at once. Whenever an event has
  just changed the display state of a reachable drawer and only time passes afterwards, in
  any number of spans \<open>ds\<close>, the state is still opening while less than 600 ms have
  passed and open from 600 ms on, and still closing while less than 500 ms have passed and
  hidden from 500 ms on; open and hidden do not move by themselves.
\<close>

theorem drawer_timing:
  assumes "mobileMenuDisplayState (nav_run (evs @ [e])) \<noteq> mobileMenuDisplayState (nav_run evs)"
  shows "mobileMenuDisplayState (nav_run [Toggle]) = Opening
         \<and> mobileMenuDisplayState (nav_run (evs @ [e] @ map Elapse ds)) =
             (case mobileMenuDisplayState (nav_run (evs @ [e])) of
                Opening \<Rightarrow> if sum_list ds < 600 then Opening else Open
              | Closing \<Rightarrow> if sum_list ds < 500 then Closing else Hidden
              | Hidden \<Rightarrow> Hidden
              | Open \<Rightarrow> Open)"
proof -
  let ?s = "nav_run (evs @ [e])"
  have fresh: "pendingTimer ?s = displayStateEffect (now ?s) (mobileMenuDisplayState ?s)"
    using fresh_timer [OF nav_inv_run, of e evs] assms by (simp add: nav_run_snoc)
  have "nav_run (evs @ [e] @ map Elapse ds) = elapse (sum_list ds) ?s"
    using nav_run_append [of "evs @ [e]" "map Elapse ds"] elapse_chunks [OF nav_inv_run, of "evs @ [e]" ds]
    by simp
  moreover have "mobileMenuDisplayState (nav_run [Toggle]) = Opening"
    by (simp add: nav_unfold)
  ultimately show ?thesis
    using elapse_from_fresh [OF fresh, of "sum_list ds"] by simp
qed

theorem drawer_timing_witness:
  "mobileMenuDisplayState (nav_run ([] @ [Toggle])) \<noteq> mobileMenuDisplayState (nav_run [])
   \<and> mobileMenuDisplayState (nav_run [Toggle, Elapse 599]) = Opening
   \<and> mobileMenuDisplayState (nav_run [Toggle, Elapse 600]) = Open
   \<and> mobileMenuDisplayState (nav_run [Toggle, Elapse 600, Toggle, Elapse 200, Elapse 299]) = Closing
   \<and> mobileMenuDisplayState (nav_run [Toggle, Elapse 600, Toggle, Elapse 200, Elapse 300]) = Hidden"
proof -
  have h1: "mobileMenuDisplayState (nav_run ([] @ [Toggle])) \<noteq> mobileMenuDisplayState (nav_run [])"
    by (simp add: nav_unfold)
  have h2: "mobileMenuDisplayState (nav_run ([Toggle, Elapse 600] @ [Toggle]))
              \<noteq> mobileMenuDisplayState (nav_run [Toggle, Elapse 600])"
    by (simp add: nav_unfold)
  have c: "mobileMenuDisplayState (nav_run ([Toggle, Elapse 600] @ [Toggle])) = Closing"
    by (simp add: nav_unfold)
  show ?thesis
    using h1 drawer_timing [OF h1, of "[599]"] drawer_timing [OF h1, of "[600]"]
      drawer_timing [OF h2, of "[200, 299]"] drawer_timing [OF h2, of "[200, 300]"] c
    by simp
qed

text \<open>
  Claim C10. In every reachable state of the drawer the flag \<open>isMobileMenuReallyOpen\<close>
  is true exactly when the display state is opening or open, and the state after any
  further event has the same property.
\<close>

theorem flag_follows_display:
  "isMobileMenuReallyOpen (nav_run evs)
     = (mobileMenuDisplayState (nav_run evs) = Opening \<or> mobileMenuDisplayState (nav_run evs) = Open)
   \<and> isMobileMenuReallyOpen (nav_step e (nav_run evs))
     = (mobileMenuDisplayState (nav_step e (nav_run evs)) = Opening
        \<or> mobileMenuDisplayState (nav_step e (nav_run evs)) = Open)"
  using nav_inv_run [of evs] nav_inv_run [of "evs @ [e]"]
  by (simp add: nav_inv_def flag_in_sync_def nav_run_snoc)

section \<open>Properties of the visibility tracker\<close>


lemma tracker_run_append:
  "tracker_run options (evs @ evs') s = tracker_run options evs' (tracker_run options evs s)"
  by (simp add: tracker_run_def)

lemma once_step_keeps:
  assumes "triggerOnce options" and "isIntersecting s"
  shows "isIntersecting (tracker_step options e s)"
  using assms by (cases e) (simp_all add: observerCallback_def unobserve_def Let_def)

lemma once_run_keeps:
  assumes "triggerOnce options" and "isIntersecting s"
  shows "isIntersecting (tracker_run options evs s)"
  by (induction evs rule: rev_induct)
     (simp_all add: tracker_run_def once_step_keeps assms)

lemmas tracker_unfold =
  tracker_run_def tracker_init_def observerCallback_def unobserve_def Let_def

text \<open>
  Claim C4. With \<open>triggerOnce\<close> set, once a run of events (deliveries of any entries,
  rebinding of the element) has made the visibility signal true, it is true after every
  continuation of that run.
\<close>

theorem once_visible_stays_visible:
  assumes "triggerOnce options"
    and "isIntersecting (tracker_run options evs tracker_init)"
  shows "isIntersecting (tracker_run options (evs @ evs') tracker_init)"
  using once_run_keeps [OF assms] by (simp add: tracker_run_append)

theorem once_visible_stays_visible_witness:
  "triggerOnce \<lparr>triggerOnce = True\<rparr>
   \<and> isIntersecting (tracker_run \<lparr>triggerOnce = True\<rparr>
        [SetElement (Some \<lparr>elementRef = 1, elementId = ''hero''\<rparr>),
         Deliver \<lparr>entryIsIntersecting = True, target = \<lparr>elementRef = 1, elementId = ''hero''\<rparr>\<rparr> []]
        tracker_init)
   \<and> isIntersecting (tracker_run \<lparr>triggerOnce = True\<rparr>
        ([SetElement (Some \<lparr>elementRef = 1, elementId = ''hero''\<rparr>),
          Deliver \<lparr>entryIsIntersecting = True, target = \<lparr>elementRef = 1, elementId = ''hero''\<rparr>\<rparr> []]
         @ [Deliver \<lparr>entryIsIntersecting = False, target = \<lparr>elementRef = 1, elementId = ''hero''\<rparr>\<rparr> [],
            SetElement None,
            SetElement (Some \<lparr>elementRef = 1, elementId = ''hero''\<rparr>),
            Deliver \<lparr>entryIsIntersecting = False, target = \<lparr>elementRef = 1, elementId = ''hero''\<rparr>\<rparr> []])
        tracker_init)"
proof -
  let ?el = "\<lparr>elementRef = 1, elementId = ''hero''\<rparr>"
  let ?evs = "[SetElement (Some ?el), Deliver \<lparr>entryIsIntersecting = True, target = ?el\<rparr> []]"
  have h1: "triggerOnce \<lparr>triggerOnce = True\<rparr>" by simp
  have h2: "isIntersecting (tracker_run \<lparr>triggerOnce = True\<rparr> ?evs tracker_init)"
    by (simp add: tracker_unfold)
  show ?thesis
    by (intro conjI) (rule h1, rule h2, rule once_visible_stays_visible [OF h1 h2])
qed








section \<open>Properties of the active-section tracker\<close>

lemma activeSectionCallback_last:
  "activeSectionCallback entries active =
     (if filter entryIsIntersecting entries = [] then active
      else Some (elementId (target (last (filter entryIsIntersecting entries)))))"
  by (induction entries rule: rev_induct) (simp_all add: activeSectionCallback_def)

lemma activeSectionCallback_keeps_Some:
  "active \<noteq> None \<Longrightarrow> activeSectionCallback entries active \<noteq> None"
  by (simp add: activeSectionCallback_last)

lemma activeSection_run_Some: "activeSection_run batches \<noteq> None"
  by (induction batches rule: rev_induct)
     (simp_all add: activeSection_run_def activeSectionInit_def activeSectionCallback_keeps_Some)

text \<open>
  Claim C8. An observation event with at least one intersecting entry sets the active
  identifier to the \<open>id\<close> of the target of the last intersecting entry of the batch; an
  event with no intersecting entry leaves the identifier as it was; and from the initial
  value \<open>hero\<close> the identifier is never null, whatever events arrive.
\<close>

theorem active_section_last_writer_wins:
  "activeSectionCallback entries active =
     (if filter entryIsIntersecting entries = [] then active
      else Some (elementId (target (last (filter entryIsIntersecting entries)))))
   \<and> activeSection_run [] = Some ''hero''
   \<and> activeSection_run batches \<noteq> None"
  using activeSectionCallback_last [of entries active] activeSection_run_Some [of batches]
  by (simp add: activeSection_run_def activeSectionInit_def)

section \<open>Properties of the theme controller\<close>

lemmas theme_unfold =
  app_mount_def applyQueued_def startupTheme_def setTheme_def persistTheme_def Let_def

lemma toggleTheme_theme:
  "theme (toggleTheme s) = (if theme s = ''light'' then ''dark'' else ''light'')"
  by (simp add: toggleTheme_def setTheme_def persistTheme_def)

lemma toggleTheme_persists:
  "localStorage (toggleTheme s) ''portfolio-theme'' = Some (theme (toggleTheme s))
   \<and> dataTheme (toggleTheme s) = Some (theme (toggleTheme s))"
  by (simp add: toggleTheme_def setTheme_def persistTheme_def)

lemma app_mount_persists:
  "localStorage (app_mount mode store prefersDark) ''portfolio-theme''
     = Some (theme (app_mount mode store prefersDark))"
  by (cases mode) (simp_all add: theme_unfold)

text \<open>
  In a production build the controller starts as the specification says. With nothing
  stored under \<open>portfolio-theme\<close> and a dark system preference the theme after start-up
  is \<open>dark\<close>, and so reads the store; one toggle then gives \<open>light\<close>, and the store
  reads \<open>light\<close>. In any state, of either build, a toggle gives \<open>dark\<close> from
  \<open>light\<close> and \<open>light\<close> otherwise, so its result is one of the two values and
  differs from the value before, and after it the store holds the new value.
\<close>

lemma production_startup_and_toggle:
  assumes "store ''portfolio-theme'' = None"
  shows "theme (app_mount Production store (Some True)) = ''dark''
         \<and> localStorage (app_mount Production store (Some True)) ''portfolio-theme'' = Some ''dark''
         \<and> theme (toggleTheme (app_mount Production store (Some True))) = ''light''
         \<and> localStorage (toggleTheme (app_mount Production store (Some True))) ''portfolio-theme''
             = Some ''light''
         \<and> theme (toggleTheme s) = (if theme s = ''light'' then ''dark'' else ''light'')
         \<and> theme (toggleTheme s) \<noteq> theme s
         \<and> localStorage (toggleTheme s) ''portfolio-theme'' = Some (theme (toggleTheme s))"
proof -
  have dark: "theme (app_mount Production store (Some True)) = ''dark''"
    using assms by (simp add: theme_unfold)
  have "theme (toggleTheme s) \<noteq> theme s"
    by (simp add: toggleTheme_theme)
  then show ?thesis
    using dark toggleTheme_persists [of s]
      toggleTheme_persists [of "app_mount Production store (Some True)"]
      app_mount_persists [of Production store "Some True"]
    by (simp add: toggleTheme_theme)
qed

text \<open>In a development build the second run of the first effect always finds the
  \<open>light\<close> that the first run of the second effect stored, and its \<open>setTheme\<close> is
  the last in the queue: whatever was stored and whatever the system prefers, the
  controller starts as \<open>light\<close>.\<close>

lemma development_mount_always_light:
  "theme (app_mount Development store prefersDark) = ''light''
   \<and> localStorage (app_mount Development store prefersDark) ''portfolio-theme'' = Some ''light''"
  by (simp add: theme_unfold)

text \<open>
  Claim C7, where the code departs from it. In the development build, with nothing stored
  under \<open>portfolio-theme\<close> and a dark system preference, the theme after start-up is
  \<open>light\<close> and the store reads \<open>light\<close>, where the claim has \<open>dark\<close>; the
  production build, on the same input, starts as \<open>dark\<close>.
\<close>

theorem strict_mode_startup_light:
  "theme (app_mount Development Map.empty (Some True)) = ''light''
   \<and> localStorage (app_mount Development Map.empty (Some True)) ''portfolio-theme'' = Some ''light''
   \<and> dataTheme (app_mount Development Map.empty (Some True)) = Some ''light''
   \<and> theme (app_mount Production Map.empty (Some True)) = ''dark''"
  by (simp add: theme_unfold)

section \<open>Properties of the typewriter animator\<close>

lemma typing_after_0: "typing_after fullName 0 ts = ts"
  by (simp add: typing_after_def)

lemma typing_after_Suc:
  "typing_after fullName (Suc n) ts = typing_tick fullName (typing_after fullName n ts)"
  by (simp add: typing_after_def)

lemma prefix_ok_step:
  assumes "prefix_ok fullName s"
  shows "prefix_ok fullName (snd (typingEffect fullName t s))"
  using assms
  by (auto simp: prefix_ok_def typingEffect_def displayed_def take_Suc_conv_app_nth
        map_butlast butlast_take)

lemma prefix_ok_init: "prefix_ok fullName hero_init"
  by (simp add: prefix_ok_def hero_init_def displayed_def)

lemma prefix_ok_after: "prefix_ok fullName (snd (typing_after fullName m (t0, hero_init)))"
proof (induction m)
  case 0
  show ?case by (simp add: typing_after_0 prefix_ok_init)
next
  case (Suc m)
  then show ?case by (simp add: typing_after_Suc typing_tick_def prefix_ok_step)
qed

lemma at_position_step:
  assumes "at_position fullName t0 m ts"
  shows "at_position fullName t0 (Suc m) (typing_tick fullName ts)"
proof -
  define N where "N = length fullName"
  define r where "r = m mod (2 * N + 2)"
  have r_less: "r < 2 * N + 2" by (simp add: r_def)
  have idx: "currentIndex (snd ts) = cycle_length_at N r"
    and dir: "isTypingForward (snd ts) = (r \<le> N)"
    and time: "fst ts = t0 + (m div (2 * N + 2)) * cycle_duration N + cycle_time_at N r"
    using assms by (simp_all add: at_position_def N_def r_def Let_def)
  consider (typing) "r < N" | (full) "r = N" | (deleting) "N < r" "r \<le> 2 * N" | (empty) "r = 2 * N + 1"
    using r_less by linarith
  then show ?thesis
  proof cases
    case typing
    then have "Suc m mod (2 * N + 2) = Suc r" "Suc m div (2 * N + 2) = m div (2 * N + 2)"
      by (simp_all add: mod_Suc div_Suc r_def)
    then show ?thesis
      using typing idx dir time
      by (simp add: at_position_def typing_tick_def typingEffect_def cycle_length_at_def
            cycle_time_at_def Let_def N_def [symmetric])
  next
    case full
    then have "Suc m mod (2 * N + 2) = Suc r" "Suc m div (2 * N + 2) = m div (2 * N + 2)"
      by (simp_all add: mod_Suc div_Suc r_def)
    then show ?thesis
      using full idx dir time
      by (simp add: at_position_def typing_tick_def typingEffect_def cycle_length_at_def
            cycle_time_at_def Let_def N_def [symmetric])
  next
    case deleting
    then have "Suc m mod (2 * N + 2) = Suc r" "Suc m div (2 * N + 2) = m div (2 * N + 2)"
      by (simp_all add: mod_Suc div_Suc r_def)
    moreover have "Suc r - (N + 1) = Suc (r - (N + 1))"
      using deleting by simp
    ultimately show ?thesis
      using deleting idx dir time
      by (simp add: at_position_def typing_tick_def typingEffect_def cycle_length_at_def
            cycle_time_at_def Let_def N_def [symmetric])
  next
    case empty
    then have "Suc m mod (2 * N + 2) = 0" "Suc m div (2 * N + 2) = Suc (m div (2 * N + 2))"
      by (simp_all add: mod_Suc div_Suc r_def)
    then show ?thesis
      using empty idx dir time
      by (simp add: at_position_def typing_tick_def typingEffect_def cycle_length_at_def
            cycle_time_at_def cycle_duration_def Let_def N_def [symmetric])
  qed
qed

lemma at_position_init: "at_position fullName t0 0 (t0, hero_init)"
  by (simp add: at_position_def hero_init_def cycle_length_at_def cycle_time_at_def)

lemma at_position_after: "at_position fullName t0 m (typing_after fullName m (t0, hero_init))"
proof (induction m)
  case 0
  show ?case by (simp add: typing_after_0 at_position_init)
next
  case (Suc m)
  then show ?case by (simp add: typing_after_Suc at_position_step)
qed

lemma delay_at_position:
  assumes "at_position fullName t0 m ts"
  shows "fst (typingEffect fullName (fst ts) (snd ts))
           = cycle_delay_at (length fullName) (m mod (2 * length fullName + 2))"
proof -
  define N where "N = length fullName"
  define r where "r = m mod (2 * N + 2)"
  have r_less: "r < 2 * N + 2" by (simp add: r_def)
  have idx: "currentIndex (snd ts) = cycle_length_at N r"
    and dir: "isTypingForward (snd ts) = (r \<le> N)"
    using assms by (simp_all add: at_position_def N_def r_def Let_def)
  have "fst (typingEffect fullName (fst ts) (snd ts)) = cycle_delay_at N r"
    using r_less idx dir
    by (auto simp: typingEffect_def cycle_delay_at_def cycle_length_at_def N_def [symmetric])
  then show ?thesis
    by (simp only: N_def r_def)
qed

text \<open>A state in which nothing is shown holds no keys, so it is determined by its
  direction.\<close>

lemma empty_forward_state:
  assumes "prefix_ok fullName s" and "currentIndex s = 0" and "isTypingForward s"
  shows "s = hero_init"
  using assms by (cases s) (simp add: prefix_ok_def displayed_def hero_init_def)

lemma at_position_index:
  "at_position fullName t0 m ts \<Longrightarrow>
     currentIndex (snd ts) = cycle_length_at (length fullName) (m mod (2 * length fullName + 2))"
  by (simp add: at_position_def Let_def)

lemma at_position_direction:
  "at_position fullName t0 m ts \<Longrightarrow>
     isTypingForward (snd ts) = (m mod (2 * length fullName + 2) \<le> length fullName)"
  by (simp add: at_position_def Let_def)

lemma full_cycle_returns:
  "snd (typing_after fullName (k * (2 * length fullName + 2)) (t, hero_init)) = hero_init"
proof -
  let ?p = "2 * length fullName + 2"
  let ?ts = "typing_after fullName (k * ?p) (t, hero_init)"
  have pos: "at_position fullName t (k * ?p) ?ts"
    by (rule at_position_after)
  have "currentIndex (snd ?ts) = cycle_length_at (length fullName) 0"
    using at_position_index [OF pos] by (simp only: mod_mult_self2_is_0)
  then have idx: "currentIndex (snd ?ts) = 0"
    by (simp add: cycle_length_at_def)
  have "isTypingForward (snd ?ts) = (0 \<le> length fullName)"
    using at_position_direction [OF pos] by (simp only: mod_mult_self2_is_0)
  then have dir: "isTypingForward (snd ?ts)"
    by simp
  from prefix_ok_after idx dir show ?thesis
    by (rule empty_forward_state)
qed

text \<open>
  Claim C6. After \<open>m\<close> ticks from the empty start, with \<open>N\<close> the length of the target
  and \<open>r\<close> the remainder of \<open>m\<close> by \<open>2 * N + 2\<close>: the text shown is the prefix of the
  target of length \<open>r\<close> while \<open>r \<le> N\<close> and of length \<open>2 * N + 1 - r\<close> after that, so
  the lengths run 0, 1, ..., N, N, N - 1, ..., 0, 0 and start again; the length never
  exceeds \<open>N\<close>; the next tick comes after 120 ms while typing, 70 ms while deleting and
  1500 ms at either end; the clock has advanced by the sum of those delays; and after every
  whole number of cycles the animator is in its initial state again.
\<close>

theorem typewriter_cycle:
  "displayed (snd (typing_after fullName m (t, hero_init)))
     = take (cycle_length_at (length fullName) (m mod (2 * length fullName + 2))) fullName
   \<and> length (displayed (snd (typing_after fullName m (t, hero_init)))) \<le> length fullName
   \<and> fst (typing_after fullName (Suc m) (t, hero_init))
     = fst (typing_after fullName m (t, hero_init))
         + cycle_delay_at (length fullName) (m mod (2 * length fullName + 2))
   \<and> fst (typing_after fullName m (t, hero_init))
     = t + (m div (2 * length fullName + 2)) * cycle_duration (length fullName)
         + cycle_time_at (length fullName) (m mod (2 * length fullName + 2))
   \<and> snd (typing_after fullName (k * (2 * length fullName + 2)) (t, hero_init)) = hero_init"
proof -
  let ?ts = "typing_after fullName m (t, hero_init)"
  have pos: "at_position fullName t m ?ts"
    by (rule at_position_after)
  have pre: "prefix_ok fullName (snd ?ts)"
    by (rule prefix_ok_after)
  have shown: "displayed (snd ?ts)
      = take (cycle_length_at (length fullName) (m mod (2 * length fullName + 2))) fullName"
    using pos pre by (simp add: at_position_def prefix_ok_def Let_def)
  have bound: "length (displayed (snd ?ts)) \<le> length fullName"
    using pre by (simp add: prefix_ok_def)
  have next_tick: "fst (typing_after fullName (Suc m) (t, hero_init))
      = fst ?ts + cycle_delay_at (length fullName) (m mod (2 * length fullName + 2))"
    using delay_at_position [OF pos] by (simp add: typing_after_Suc typing_tick_def)
  have clock: "fst ?ts = t + (m div (2 * length fullName + 2)) * cycle_duration (length fullName)
      + cycle_time_at (length fullName) (m mod (2 * length fullName + 2))"
    using pos by (simp add: at_position_def Let_def)
  show ?thesis
    using shown bound next_tick clock full_cycle_returns [of fullName k t] by blast
qed

text \<open>The example of the specification, target \<open>Hi\<close>: time and text after each of the
  first seven ticks.\<close>

lemma typewriter_Hi:
  "map (\<lambda>n. (fst (typing_after ''Hi'' n (0, hero_init)),
             displayed (snd (typing_after ''Hi'' n (0, hero_init)))))
       [0, 1, 2, 3, 4, 5, 6, 7]
   = [(0, ''''), (120, ''H''), (240, ''Hi''), (1740, ''Hi''), (1810, ''H''), (1880, ''''),
      (3380, ''''), (3500, ''H'')]"
  by (simp add: typing_after_def typing_tick_def typingEffect_def hero_init_def displayed_def
        typingSpeed_def backspaceSpeed_def pauseAtEndDuration_def eval_nat_numeral)

end
